theory Spec2Isabelle
  imports Complex_Main "HOL-Library.AList" "HOL-Library.Char_ord" "HOL-Library.List_Lexorder"
begin

section \<open>Values\<close>

text \<open>
  A JavaScript number: a finite double is modelled by the real number it denotes (every
  double is a real, comparison and \<open>Math.min\<close> on doubles agree with the reals), and the
  three special values are kept apart.
\<close>

datatype jsnum = Fin real | PosInf | NegInf | NaN

text \<open>
  The argument structures of the tools arrive as parsed JSON
  (\<open>z.record(z.unknown())\<close>): the closed sum of scalars, sequences and mappings.
  A mapping is the list of its entries in the order of \<open>Object.entries\<close>.
\<close>

datatype json =
    JNull
  | JBool bool
  | JNum jsnum
  | JStr string
  | JArr "json list"
  | JObj "(string \<times> json) list"

type_synonym record_t = "(string \<times> json) list"

text \<open>An optional parameter: \<open>undefined\<close>, \<open>null\<close> or a value.\<close>

datatype 'a optional = Undefined | Null | Given 'a

text \<open>
  What a \<open>throw\<close> carries: an \<open>Error\<close> built by the source with its message, or the
  \<open>TypeError\<close> that the engine raises for \<open>in\<close> applied to a primitive.
\<close>

datatype error = Error string | TypeError

section \<open>security.ts\<close>

record security_limits =
  maxTimeMS :: nat
  maxLimit :: nat
  defaultLimit :: nat
  maxSampleSize :: nat
  defaultSampleSize :: nat

definition SECURITY_LIMITS :: security_limits where
  "SECURITY_LIMITS = \<lparr> maxTimeMS = 30000, maxLimit = 100, defaultLimit = 10,
     maxSampleSize = 1000, defaultSampleSize = 100 \<rparr>"

definition PROHIBITED_FILTER_OPERATORS :: "string list" where
  "PROHIBITED_FILTER_OPERATORS = [''$where'', ''$function'', ''$accumulator'']"

definition PROHIBITED_STAGES :: "string list" where
  "PROHIBITED_STAGES = [''$out'', ''$merge'', ''$function'', ''$accumulator'']"

text \<open>\<open>if (found)\<close> on a \<open>string | null\<close>: null and the empty string are falsy.\<close>

fun truthy_found :: "string option \<Rightarrow> bool" where
  "truthy_found None = False"
| "truthy_found (Some s) = (s \<noteq> [])"

text \<open>
  \<open>containsProhibitedOperator\<close>, with its two loops as \<open>scan_items\<close> (the
  \<open>for ... of obj\<close> over an array) and \<open>scan_entries\<close> (the \<open>for ... of
  Object.entries(obj)\<close>). Each loop returns from inside as the source does.
\<close>

function containsProhibitedOperator :: "json \<Rightarrow> string list \<Rightarrow> string option"
  and scan_items :: "json list \<Rightarrow> string list \<Rightarrow> string option"
  and scan_entries :: "(string \<times> json) list \<Rightarrow> string list \<Rightarrow> string option"
where
  "containsProhibitedOperator JNull prohibited = None"
| "containsProhibitedOperator (JBool b) prohibited = None"
| "containsProhibitedOperator (JNum n) prohibited = None"
| "containsProhibitedOperator (JStr s) prohibited = None"
| "containsProhibitedOperator (JArr items) prohibited = scan_items items prohibited"
| "containsProhibitedOperator (JObj entries) prohibited = scan_entries entries prohibited"
| "scan_items [] prohibited = None"
| "scan_items (item # items) prohibited =
     (let found = containsProhibitedOperator item prohibited
      in if truthy_found found then found else scan_items items prohibited)"
| "scan_entries [] prohibited = None"
| "scan_entries ((key, val) # entries) prohibited =
     (if key \<in> set prohibited then Some key
      else let found = containsProhibitedOperator val prohibited
           in if truthy_found found then found else scan_entries entries prohibited)"
  by pat_completeness auto
termination
  by (relation "measure (\<lambda>x. case x of
        Inl (v, _) \<Rightarrow> size v
      | Inr (Inl (vs, _)) \<Rightarrow> size_list size vs
      | Inr (Inr (es, _)) \<Rightarrow> size_list (size_prod (\<lambda>_. 0) size) es)") auto

fun join :: "string \<Rightarrow> string list \<Rightarrow> string" where
  "join sep [] = []"
| "join sep [x] = x"
| "join sep (x # y # ys) = x @ sep @ join sep (y # ys)"

definition quoted :: "string \<Rightarrow> string" where
  "quoted s = [CHR 0x22] @ s @ [CHR 0x22]"

definition filter_message :: "string \<Rightarrow> string" where
  "filter_message prohibited =
     ''Prohibited operator '' @ quoted prohibited @ '' found in filter. '' @
     ''The following operators are not allowed: '' @ join '', '' PROHIBITED_FILTER_OPERATORS"

definition validateFilter :: "record_t \<Rightarrow> error + unit" where
  "validateFilter filter_arg =
     (let prohibited = containsProhibitedOperator (JObj filter_arg) PROHIBITED_FILTER_OPERATORS
      in if truthy_found prohibited then Inl (Error (filter_message (the prohibited)))
         else Inr ())"

definition stage_message :: "string \<Rightarrow> string" where
  "stage_message key =
     ''Prohibited stage '' @ quoted key @ '' found in pipeline. '' @
     ''The following stages are not allowed: '' @ join '', '' PROHIBITED_STAGES"

definition lookup_message :: string where
  "lookup_message =
     ''$lookup with pipeline is not allowed for security reasons. '' @
     ''Use $lookup with localField/foreignField instead.''"

definition stage_operator_message :: "string \<Rightarrow> string" where
  "stage_operator_message prohibited =
     ''Prohibited operator '' @ quoted prohibited @ '' found in pipeline stage. '' @
     ''Code execution operators are not allowed.''"

text \<open>The inner loop \<open>for (const key of stageKeys)\<close>.\<close>

fun check_stage_keys :: "string list \<Rightarrow> error + unit" where
  "check_stage_keys [] = Inr ()"
| "check_stage_keys (key # stageKeys) =
     (if key \<in> set PROHIBITED_STAGES then Inl (Error (stage_message key))
      else check_stage_keys stageKeys)"

text \<open>
  \<open>key in stage\<close> for a stage, which is a parsed JSON object: the keys tested by the
  source (\<open>$lookup\<close>, \<open>$limit\<close>) are no properties of \<open>Object.prototype\<close>, so the
  test is membership among the own keys. \<open>stage[key]\<close> reads the entry.
\<close>

definition key_in :: "string \<Rightarrow> record_t \<Rightarrow> bool" where
  "key_in key stage = (key \<in> set (map fst stage))"

text \<open>JavaScript truthiness of a JSON value, for \<open>lookup && ...\<close>.\<close>

fun truthy :: "json \<Rightarrow> bool" where
  "truthy JNull = False"
| "truthy (JBool b) = b"
| "truthy (JNum (Fin r)) = (r \<noteq> 0)"
| "truthy (JNum NaN) = False"
| "truthy (JNum PosInf) = True"
| "truthy (JNum NegInf) = True"
| "truthy (JStr s) = (s \<noteq> [])"
| "truthy (JArr items) = True"
| "truthy (JObj entries) = True"

text \<open>
  \<open>"pipeline" in lookup\<close>: on an object the key is looked up; an array has no property of
  that name; on a primitive (boolean, number, string) the operator throws a TypeError.
  The source reaches it with truthy values only, so null never gets here.
\<close>

fun pipeline_in :: "json \<Rightarrow> error + bool" where
  "pipeline_in (JObj entries) = Inr (key_in ''pipeline'' entries)"
| "pipeline_in (JArr items) = Inr False"
| "pipeline_in v = Inl TypeError"

definition check_lookup :: "record_t \<Rightarrow> error + unit" where
  "check_lookup stage =
     (if key_in ''$lookup'' stage then
        (case map_of stage ''$lookup'' of
           None \<Rightarrow> Inr ()
         | Some lookup \<Rightarrow>
             if truthy lookup then
               (case pipeline_in lookup of
                  Inl e \<Rightarrow> Inl e
                | Inr found \<Rightarrow> if found then Inl (Error lookup_message) else Inr ())
             else Inr ())
      else Inr ())"

text \<open>The body of the loop \<open>for (const stage of pipeline)\<close>.\<close>

definition validate_stage :: "record_t \<Rightarrow> error + unit" where
  "validate_stage stage =
     (case check_stage_keys (map fst stage) of
        Inl e \<Rightarrow> Inl e
      | Inr _ \<Rightarrow>
          (case check_lookup stage of
             Inl e \<Rightarrow> Inl e
           | Inr _ \<Rightarrow>
               (let prohibited =
                      containsProhibitedOperator (JObj stage) [''$function'', ''$accumulator'']
                in if truthy_found prohibited
                   then Inl (Error (stage_operator_message (the prohibited)))
                   else Inr ())))"

fun validatePipeline :: "record_t list \<Rightarrow> error + unit" where
  "validatePipeline [] = Inr ()"
| "validatePipeline (stage # pipeline) =
     (case validate_stage stage of
        Inl e \<Rightarrow> Inl e
      | Inr _ \<Rightarrow> validatePipeline pipeline)"

text \<open>\<open>a <= b\<close> and \<open>Math.min(a, b)\<close> on numbers.\<close>

fun js_le :: "jsnum \<Rightarrow> jsnum \<Rightarrow> bool" where
  "js_le NaN b = False"
| "js_le a NaN = False"
| "js_le NegInf b = True"
| "js_le a PosInf = True"
| "js_le PosInf b = False"
| "js_le a NegInf = False"
| "js_le (Fin x) (Fin y) = (x \<le> y)"

fun Math_min :: "jsnum \<Rightarrow> jsnum \<Rightarrow> jsnum" where
  "Math_min NaN b = NaN"
| "Math_min a NaN = NaN"
| "Math_min NegInf b = NegInf"
| "Math_min a NegInf = NegInf"
| "Math_min PosInf b = b"
| "Math_min a PosInf = a"
| "Math_min (Fin x) (Fin y) = Fin (min x y)"

fun applyLimit :: "jsnum optional \<Rightarrow> jsnum" where
  "applyLimit Undefined = Fin (real (defaultLimit SECURITY_LIMITS))"
| "applyLimit Null = Fin (real (defaultLimit SECURITY_LIMITS))"
| "applyLimit (Given requestedLimit) =
     (if js_le requestedLimit (Fin 0) then Fin (real (defaultLimit SECURITY_LIMITS))
      else Math_min requestedLimit (Fin (real (maxLimit SECURITY_LIMITS))))"

fun applySampleSize :: "jsnum optional \<Rightarrow> jsnum" where
  "applySampleSize Undefined = Fin (real (defaultSampleSize SECURITY_LIMITS))"
| "applySampleSize Null = Fin (real (defaultSampleSize SECURITY_LIMITS))"
| "applySampleSize (Given requestedSize) =
     (if js_le requestedSize (Fin 0) then Fin (real (defaultSampleSize SECURITY_LIMITS))
      else Math_min requestedSize (Fin (real (maxSampleSize SECURITY_LIMITS))))"

section \<open>client.ts\<close>

text \<open>
  The process environment and the outcome of the driver's \<open>MongoClient.connect\<close>
  (\<open>None\<close> when it resolves, the rejection otherwise). The handle itself is the
  collaborator's and carries no data of this layer.
\<close>

record env =
  MONGODB_URI :: "string option"
  MONGODB_DB :: "string option"
  connect_failure :: "error option"

text \<open>\<open>!s\<close> on an environment variable: unset or empty.\<close>

fun unset :: "string option \<Rightarrow> bool" where
  "unset None = True"
| "unset (Some s) = (s = [])"

definition getMongoClient :: "env \<Rightarrow> error + unit" where
  "getMongoClient e =
     (if unset (MONGODB_URI e) then Inl (Error ''MONGODB_URI environment variable is not set'')
      else case connect_failure e of Some err \<Rightarrow> Inl err | None \<Rightarrow> Inr ())"

definition getDatabase :: "env \<Rightarrow> error + unit" where
  "getDatabase e =
     (if unset (MONGODB_DB e) then Inl (Error ''MONGODB_DB environment variable is not set'')
      else getMongoClient e)"

definition getDatabaseName :: "env \<Rightarrow> error + string" where
  "getDatabaseName e =
     (if unset (MONGODB_DB e) then Inl (Error ''MONGODB_DB environment variable is not set'')
      else Inr (the (MONGODB_DB e)))"

section \<open>tools/aggregate.ts\<close>

definition hasLimitStage :: "record_t list \<Rightarrow> bool" where
  "hasLimitStage pipeline = list_ex (\<lambda>stage. key_in ''$limit'' stage) pipeline"

text \<open>The call the tool issues: \<open>db.collection(collection).aggregate(pipeline, options)\<close>.\<close>

record aggregate_call =
  call_collection :: string
  call_pipeline :: "record_t list"
  call_maxTimeMS :: nat

text \<open>
  \<open>aggregateTool\<close> up to the call into the database client; what follows in the source
  formats the documents the cursor returns.
\<close>

definition aggregateTool :: "env \<Rightarrow> string \<Rightarrow> record_t list \<Rightarrow> error + aggregate_call" where
  "aggregateTool e collection pipeline =
     (case validatePipeline pipeline of
        Inl err \<Rightarrow> Inl err
      | Inr _ \<Rightarrow>
          (case getDatabase e of
             Inl err \<Rightarrow> Inl err
           | Inr _ \<Rightarrow>
               (case getDatabaseName e of
                  Inl err \<Rightarrow> Inl err
                | Inr dbName \<Rightarrow>
                    (let effectivePipeline =
                           (if \<not> hasLimitStage pipeline
                            then pipeline @
                              [[(''$limit'',
                                 JNum (applyLimit (Given (Fin (real (maxLimit SECURITY_LIMITS))))))]]
                            else pipeline)
                     in Inr \<lparr> call_collection = collection,
                              call_pipeline = effectivePipeline,
                              call_maxTimeMS = maxTimeMS SECURITY_LIMITS \<rparr>))))"

section \<open>tools/collectionSchema.ts\<close>

text \<open>
  The values of a sampled document as the walk tells them apart: the kinds that
  \<open>getBsonType\<close> tests for, in the order it tests them. \<open>VView\<close> is an ArrayBuffer view
  holding bytes (a \<open>Buffer\<close> or \<open>Uint8Array\<close>), \<open>VObject\<close> any other object, given by
  its \<open>Object.entries\<close>, and \<open>VOther\<close> a value whose \<open>typeof\<close> is none of those tested
  (a symbol or a function).
\<close>

datatype bval =
    VNull
  | VUndefined
  | VObjectId string
  | VDate int
  | VRegExp string
  | VView "nat list"
  | VArray "bval list"
  | VObject "(string \<times> bval) list"
  | VNumber jsnum
  | VBoolean bool
  | VString string
  | VBigInt int
  | VOther

type_synonym document = "(string \<times> bval) list"

text \<open>\<open>Number.isInteger\<close>: a finite number with no fractional part.\<close>

fun Number_isInteger :: "jsnum \<Rightarrow> bool" where
  "Number_isInteger (Fin r) = (r = of_int \<lfloor>r\<rfloor>)"
| "Number_isInteger n = False"

fun getBsonType :: "bval \<Rightarrow> string" where
  "getBsonType VNull = ''null''"
| "getBsonType VUndefined = ''undefined''"
| "getBsonType (VObjectId oid) = ''ObjectId''"
| "getBsonType (VDate ms) = ''Date''"
| "getBsonType (VRegExp src) = ''RegExp''"
| "getBsonType (VView bytes) = ''Binary''"
| "getBsonType (VArray items) = ''Array''"
| "getBsonType (VObject entries) = ''Object''"
| "getBsonType (VNumber n) = (if Number_isInteger n then ''Int'' else ''Double'')"
| "getBsonType (VBoolean b) = ''Boolean''"
| "getBsonType (VString s) = ''String''"
| "getBsonType (VBigInt i) = ''Long''"
| "getBsonType VOther = ''Unknown''"

text \<open>The decimal numeral of an index, as the property keys of an array-like object are.\<close>

fun decimal :: "nat \<Rightarrow> string" where
  "decimal n =
     (if n < 10 then [''0123456789'' ! n]
      else decimal (n div 10) @ [''0123456789'' ! (n mod 10)])"

fun index_entries :: "nat \<Rightarrow> nat list \<Rightarrow> (string \<times> bval) list" where
  "index_entries i [] = []"
| "index_entries i (b # bytes) = (decimal i, VNumber (Fin (real b))) # index_entries (Suc i) bytes"

text \<open>
  The guard of the walk,
  \<open>value !== null && typeof value === "object" && !Array.isArray(value) &&
   !(value instanceof ObjectId) && !(value instanceof Date) && !(value instanceof RegExp)\<close>:
  \<open>typeof\<close> is \<open>"object"\<close> for null, the three classes, views, arrays and other objects.
\<close>

fun is_nested_object :: "bval \<Rightarrow> bool" where
  "is_nested_object (VView bytes) = True"
| "is_nested_object (VObject entries) = True"
| "is_nested_object v = False"

text \<open>
  \<open>Object.entries\<close> of a value the walk enters: the entries of an object, the index
  properties of a view.
\<close>

fun Object_entries :: "bval \<Rightarrow> (string \<times> bval) list" where
  "Object_entries (VObject entries) = entries"
| "Object_entries (VView bytes) = index_entries 0 bytes"
| "Object_entries v = []"

text \<open>The measure that the walk decreases: nodes of the value tree, a view with its bytes.\<close>

primrec weight :: "bval \<Rightarrow> nat" where
  "weight VNull = 1"
| "weight VUndefined = 1"
| "weight (VObjectId oid) = 1"
| "weight (VDate ms) = 1"
| "weight (VRegExp src) = 1"
| "weight (VView bytes) = 1 + 2 * length bytes"
| "weight (VArray items) = 1"
| "weight (VObject entries) = 1 + sum_list (map (\<lambda>(k, w). Suc w) (map (map_prod id weight) entries))"
| "weight (VNumber n) = 1"
| "weight (VBoolean b) = 1"
| "weight (VString s) = 1"
| "weight (VBigInt i) = 1"
| "weight VOther = 1"

definition weight_entries :: "(string \<times> bval) list \<Rightarrow> nat" where
  "weight_entries entries = sum_list (map (\<lambda>(k, v). Suc (weight v)) entries)"

text \<open>
  \<open>extractFields\<close>: the document is given by its \<open>Object.entries\<close>; \<open>fmap\<close> is the
  \<open>Map\<close> named \<open>fields\<close> under construction, an association list in insertion order,
  where \<open>set\<close> on a present key replaces the value in place. \<open>extract_loop\<close> is the
  \<open>for\<close> loop.
\<close>

function extractFields :: "document \<Rightarrow> string \<Rightarrow> (string \<times> string) list"
  and extract_loop ::
    "document \<Rightarrow> string \<Rightarrow> (string \<times> string) list \<Rightarrow> (string \<times> string) list"
where
  "extractFields doc prefix = extract_loop doc prefix []"
| "extract_loop [] prefix fmap = fmap"
| "extract_loop ((key, val) # rest) prefix fmap =
     (let fieldPath = (if prefix \<noteq> [] then prefix @ ''.'' @ key else key);
          fmap1 = AList.update fieldPath (getBsonType val) fmap;
          fmap2 =
            (if is_nested_object val
             then fold (\<lambda>(nestedPath, nestedType). AList.update nestedPath nestedType)
                    (extractFields (Object_entries val) fieldPath) fmap1
             else fmap1)
      in extract_loop rest prefix fmap2)"
  by pat_completeness auto
termination
proof (relation "measure (\<lambda>x. case x of
          Inl (doc, _) \<Rightarrow> Suc (weight_entries doc)
        | Inr (entries, _, _) \<Rightarrow> weight_entries entries)")
  show "wf (measure (\<lambda>x. case x of
          Inl (doc, _) \<Rightarrow> Suc (weight_entries doc)
        | Inr (entries, _, _) \<Rightarrow> weight_entries entries))"
    by simp
next
  fix key :: string and val :: bval and rest :: document and prefix fieldPath :: string
    and fmap :: "(string \<times> string) list"
  have view: "weight_entries (index_entries i bytes) = 2 * length bytes" for i bytes
    by (induction bytes arbitrary: i) (simp_all add: weight_entries_def)
  have obj: "sum_list (map (\<lambda>(k, w). Suc w) (map (map_prod id weight) entries))
             = weight_entries entries" for entries
    by (induction entries) (auto simp: weight_entries_def)
  have "weight_entries (Object_entries val) < weight val"
  proof (cases val)
    case (VObject entries)
    then show ?thesis using obj[of entries] by simp
  next
    case (VView bytes)
    then show ?thesis by (simp add: view)
  qed (simp_all add: weight_entries_def)
  then show "(Inl (Object_entries val, fieldPath), Inr ((key, val) # rest, prefix, fmap))
        \<in> measure (\<lambda>x. case x of
          Inl (doc, _) \<Rightarrow> Suc (weight_entries doc)
        | Inr (entries, _, _) \<Rightarrow> weight_entries entries)"
    by (simp add: weight_entries_def)
qed (simp_all add: weight_entries_def)

text \<open>
  Arithmetic on doubles. \<open>fl\<close> rounds a real to the nearest double, ties to the even
  significand (53 bits), which is what \<open>/\<close> and \<open>*\<close> do to their exact results.
  The exponent range is not modelled: the operands here are counts of documents and their
  quotients, far from overflow and from the subnormal numbers.
\<close>

function ilog2 :: "real \<Rightarrow> int" where
  "ilog2 x =
     (if x \<le> 0 then 0
      else if x < 1 then ilog2 (2 * x) - 1
      else if 2 \<le> x then ilog2 (x / 2) + 1
      else 0)"
  by pat_completeness auto
termination
proof (relation "measure (\<lambda>x. if x < 1 then nat \<lceil>1 / x\<rceil> + 1 else nat \<lfloor>x\<rfloor>)")
  show "wf (measure (\<lambda>x::real. if x < 1 then nat \<lceil>1 / x\<rceil> + 1 else nat \<lfloor>x\<rfloor>))"
    by simp
next
  fix x :: real
  assume a: "\<not> x \<le> 0" "x < 1"
  show "(2 * x, x) \<in> measure (\<lambda>x. if x < 1 then nat \<lceil>1 / x\<rceil> + 1 else nat \<lfloor>x\<rfloor>)"
  proof (cases "2 * x < 1")
    case True
    from a have "2 < 1 / x" using True by (simp add: field_simps)
    then have "1 / (2 * x) \<le> 1 / x - 1" using a by (simp add: field_simps)
    then have "\<lceil>1 / (2 * x)\<rceil> \<le> \<lceil>1 / x - 1\<rceil>" by (rule ceiling_mono)
    also have "\<dots> = \<lceil>1 / x\<rceil> - 1" by simp
    finally have "\<lceil>1 / (2 * x)\<rceil> < \<lceil>1 / x\<rceil>" by simp
    moreover have "0 < \<lceil>1 / (2 * x)\<rceil>" using a by simp
    ultimately show ?thesis using a True by simp
  next
    case False
    then have "2 * x < 2" "1 \<le> 2 * x" using a by simp_all
    then have "\<lfloor>2 * x\<rfloor> = 1" by linarith
    moreover have "1 < 1 / x" using a by simp
    then have "1 < \<lceil>1 / x\<rceil>" by linarith
    ultimately show ?thesis using a False by simp
  qed
next
  fix x :: real
  assume a: "\<not> x \<le> 0" "\<not> x < 1" "2 \<le> x"
  then have "x / 2 \<le> x - 1" by simp
  then have "\<lfloor>x / 2\<rfloor> \<le> \<lfloor>x - 1\<rfloor>" by (rule floor_mono)
  then have "\<lfloor>x / 2\<rfloor> < \<lfloor>x\<rfloor>" by simp
  moreover have "0 < \<lfloor>x\<rfloor>" using a by simp
  ultimately show "(x / 2, x) \<in> measure (\<lambda>x. if x < 1 then nat \<lceil>1 / x\<rceil> + 1 else nat \<lfloor>x\<rfloor>)"
    using a by simp
qed

declare ilog2.simps [simp del]

definition pow2 :: "int \<Rightarrow> real" where
  "pow2 e = (if 0 \<le> e then 2 ^ nat e else 1 / 2 ^ nat (- e))"

definition round_half_even :: "real \<Rightarrow> int" where
  "round_half_even x =
     (let f = \<lfloor>x\<rfloor>; d = x - of_int f
      in if d < 1 / 2 then f
         else if 1 / 2 < d then f + 1
         else if even f then f else f + 1)"

definition fl :: "real \<Rightarrow> real" where
  "fl x =
     (if x = 0 then 0
      else let ulp = pow2 (ilog2 \<bar>x\<bar> - 52)
           in of_int (round_half_even (x / ulp)) * ulp)"

text \<open>\<open>Math.round\<close>: the nearest integer, a tie going up.\<close>

definition Math_round :: "real \<Rightarrow> int" where
  "Math_round x = \<lfloor>x + 1 / 2\<rfloor>"

text \<open>\<open>Math.round((totalOccurrences / totalDocs) * 100)\<close>\<close>

definition percentage_of :: "nat \<Rightarrow> nat \<Rightarrow> int" where
  "percentage_of totalOccurrences totalDocs =
     Math_round (fl (fl (real totalOccurrences / real totalDocs) * 100))"

record FieldSchema =
  types :: "string list"
  percentage :: int

text \<open>
  \<open>SchemaResult\<close> is a plain object: the map of its own properties. An assignment
  \<open>schema[fieldPath] = v\<close> adds or replaces the own property, except for the key
  \<open>__proto__\<close>, which is the accessor of \<open>Object.prototype\<close> and adds none.
\<close>

type_synonym SchemaResult = "string \<rightharpoonup> FieldSchema"

definition assign_property :: "SchemaResult \<Rightarrow> string \<Rightarrow> FieldSchema \<Rightarrow> SchemaResult" where
  "assign_property schema key v = (if key = ''__proto__'' then schema else schema(key \<mapsto> v))"

text \<open>\<open>typeCounts.set(type, (typeCounts.get(type) || 0) + 1)\<close>\<close>

definition increment :: "string \<Rightarrow> (string \<times> nat) list \<Rightarrow> (string \<times> nat) list" where
  "increment type typeCounts =
     AList.update type ((case map_of typeCounts type of None \<Rightarrow> 0 | Some n \<Rightarrow> n) + 1) typeCounts"

text \<open>
  The body of the loop over the fields of one document: \<open>fieldStats\<close> is a \<open>Map\<close> from
  paths to \<open>Map\<close>s from type names to counts; the inner \<open>Map\<close> is updated in place.
\<close>

definition count_field ::
  "string \<times> string \<Rightarrow> (string \<times> (string \<times> nat) list) list \<Rightarrow> (string \<times> (string \<times> nat) list) list"
where
  "count_field entry fieldStats =
     (case entry of (fieldPath, type) \<Rightarrow>
        let fieldStats1 =
              (if map_of fieldStats fieldPath = None then AList.update fieldPath [] fieldStats
               else fieldStats);
            typeCounts = the (map_of fieldStats1 fieldPath)
        in AList.update fieldPath (increment type typeCounts) fieldStats1)"

definition collect_stats :: "document list \<Rightarrow> (string \<times> (string \<times> nat) list) list" where
  "collect_stats documents =
     fold (\<lambda>doc fieldStats. fold count_field (extractFields doc []) fieldStats) documents []"

definition field_schema :: "nat \<Rightarrow> (string \<times> nat) list \<Rightarrow> FieldSchema" where
  "field_schema totalDocs typeCounts =
     (let types = sort (map fst typeCounts);
          totalOccurrences = foldl (+) 0 (map snd typeCounts);
          percentage = percentage_of totalOccurrences totalDocs
      in \<lparr> types = types, percentage = percentage \<rparr>)"

definition inferSchema :: "document list \<Rightarrow> SchemaResult" where
  "inferSchema documents =
     (if length documents = 0 then Map.empty
      else let totalDocs = length documents;
               fieldStats = collect_stats documents
           in fold (\<lambda>(fieldPath, typeCounts) schema.
                      assign_property schema fieldPath (field_schema totalDocs typeCounts))
                fieldStats Map.empty)"

section \<open>Vocabulary of the properties\<close>

text \<open>
  All mapping keys of a structure, at every depth, in the order a depth-first walk meets
  them: a key before the keys inside its value, entries and elements from first to last.
\<close>

primrec all_keys :: "json \<Rightarrow> string list" where
  "all_keys JNull = []"
| "all_keys (JBool b) = []"
| "all_keys (JNum n) = []"
| "all_keys (JStr s) = []"
| "all_keys (JArr items) = concat (map all_keys items)"
| "all_keys (JObj entries) =
     concat (map (\<lambda>(k, ks). k # ks) (map (map_prod id all_keys) entries))"

text \<open>
  The kind of the top-level field \<open>k\<close> of a document: what \<open>getBsonType\<close> says of
  its value, \<open>None\<close> when the document has no such field.
\<close>

definition field_kind :: "document \<Rightarrow> string \<Rightarrow> string option" where
  "field_kind doc k = map_option getBsonType (map_of doc k)"

text \<open>
  What the walk records for a path in one document; the number of documents of a sample in
  which a path appears; the kinds recorded for a path over the sample.
\<close>

definition recorded :: "document \<Rightarrow> string \<Rightarrow> string option" where
  "recorded doc path = map_of (extractFields doc []) path"

definition presence :: "document list \<Rightarrow> string \<Rightarrow> nat" where
  "presence documents path = length (filter (\<lambda>doc. recorded doc path \<noteq> None) documents)"

definition kinds_seen :: "document list \<Rightarrow> string \<Rightarrow> string set" where
  "kinds_seen documents path = set (List.map_filter (\<lambda>doc. recorded doc path) documents)"

text \<open>
  Every value the walk meets in a document, in the order it meets them, with the path
  built for it and the kind \<open>getBsonType\<close> gives it: the arguments of the calls
  \<open>fields.set(fieldPath, type)\<close>, before the \<open>Map\<close> merges equal paths. The kinds seen
  for a path in a document are the kinds paired with it in this list.
\<close>

function visits :: "document \<Rightarrow> string \<Rightarrow> (string \<times> string) list" where
  "visits [] prefix = []"
| "visits ((key, val) # rest) prefix =
     (let fieldPath = (if prefix \<noteq> [] then prefix @ ''.'' @ key else key)
      in (fieldPath, getBsonType val) #
         (if is_nested_object val then visits (Object_entries val) fieldPath else []) @
         visits rest prefix)"
  by pat_completeness auto
termination
proof (relation "measure (\<lambda>(doc, prefix). weight_entries doc)")
  show "wf (measure (\<lambda>(doc, prefix). weight_entries doc))"
    by simp
next
  fix key :: string and val :: bval and rest :: document and prefix fieldPath :: string
  have view: "weight_entries (index_entries i bytes) = 2 * length bytes" for i bytes
    by (induction bytes arbitrary: i) (simp_all add: weight_entries_def)
  have obj: "sum_list (map (\<lambda>(k, w). Suc w) (map (map_prod id weight) entries))
             = weight_entries entries" for entries
    by (induction entries) (auto simp: weight_entries_def)
  have "weight_entries (Object_entries val) < weight val"
  proof (cases val)
    case (VObject entries)
    then show ?thesis using obj[of entries] by simp
  next
    case (VView bytes)
    then show ?thesis by (simp add: view)
  qed (simp_all add: weight_entries_def)
  then show "((Object_entries val, fieldPath), (key, val) # rest, prefix)
        \<in> measure (\<lambda>(doc, prefix). weight_entries doc)"
    by (simp add: weight_entries_def)
next
  fix key :: string and val :: bval and rest :: document and prefix fieldPath :: string
  show "((rest, prefix), (key, val) # rest, prefix) \<in> measure (\<lambda>(doc, prefix). weight_entries doc)"
    by (simp add: weight_entries_def)
qed


text \<open>
  A document with plain keys: no key twice, as in any object, and no empty key. Below an
  empty key the walk starts again without a prefix (\<open>prefix ? ... : key\<close>), so a field
  nested there is recorded under the bare name and can replace a top-level field's record.
\<close>

definition plain_keys :: "document \<Rightarrow> bool" where
  "plain_keys doc = (distinct (map fst doc) \<and> [] \<notin> set (map fst doc))"



text \<open>
  A sample of four documents, the first with a field below the empty key.
\<close>

definition empty_key_sample :: "document list" where
  "empty_key_sample =
     [[(''a'', VNumber (Fin 1)), ('''', VObject [(''a'', VBoolean True)])],
      [(''a'', VNumber (Fin 2))],
      [(''a'', VNumber (Fin 3))],
      [(''a'', VString ''s'')]]"

section \<open>Properties of the structural validator\<close>

lemma find_append: "find P (xs @ ys) = (case find P xs of None \<Rightarrow> find P ys | Some x \<Rightarrow> Some x)"
  by (induction xs) auto

lemma find_holds: "find P xs = Some x \<Longrightarrow> P x"
  by (induction xs) (auto split: if_splits)

lemma scan_is_find:
  "[] \<notin> set p \<Longrightarrow> containsProhibitedOperator v p = find (\<lambda>k. k \<in> set p) (all_keys v)"
  "[] \<notin> set p \<Longrightarrow> scan_items vs p = find (\<lambda>k. k \<in> set p) (concat (map all_keys vs))"
  "[] \<notin> set p \<Longrightarrow> scan_entries es p =
     find (\<lambda>k. k \<in> set p) (concat (map (\<lambda>(k, ks). k # ks) (map (map_prod id all_keys) es)))"
proof (induction v p and vs p and es p rule: containsProhibitedOperator_scan_items_scan_entries.induct)
  case (8 item items prohibited)
  show ?case
  proof (cases "find (\<lambda>k. k \<in> set prohibited) (all_keys item)")
    case None
    with 8 show ?thesis by (simp add: find_append)
  next
    case (Some k)
    then have "k \<in> set prohibited" by (rule find_holds)
    with 8 have "k \<noteq> []" by auto
    with 8 Some show ?thesis by (simp add: find_append)
  qed
next
  case (10 key val entries prohibited)
  show ?case
  proof (cases "key \<in> set prohibited")
    case True
    then show ?thesis by simp
  next
    case False
    show ?thesis
    proof (cases "find (\<lambda>k. k \<in> set prohibited) (all_keys val)")
      case None
      with 10 False show ?thesis by (simp add: find_append)
    next
      case (Some k)
      then have "k \<in> set prohibited" by (rule find_holds)
      with 10 have "k \<noteq> []" by auto
      with 10 False Some show ?thesis by (simp add: find_append)
    qed
  qed
qed simp_all

lemma find_mem: "find P xs = Some x \<Longrightarrow> x \<in> set xs"
  by (induction xs) (auto split: if_splits)

lemma find_None_disjoint: "find (\<lambda>k. k \<in> A) xs = None \<longleftrightarrow> set xs \<inter> A = {}"
  by (induction xs) auto

lemma truthy_found_find:
  "[] \<notin> A \<Longrightarrow> truthy_found (find (\<lambda>k. k \<in> A) xs) \<longleftrightarrow> set xs \<inter> A \<noteq> {}"
proof (cases "find (\<lambda>k. k \<in> A) xs")
  case None
  then have "set xs \<inter> A = {}" by (simp add: find_None_disjoint)
  with None show ?thesis by simp
next
  case (Some k)
  assume e: "[] \<notin> A"
  from Some have "k \<in> A" by (rule find_holds)
  moreover from Some have "find (\<lambda>k. k \<in> A) xs \<noteq> None" by simp
  then have "set xs \<inter> A \<noteq> {}" by (simp add: find_None_disjoint)
  ultimately show ?thesis using Some e by auto
qed

lemma validateFilter_find:
  "validateFilter f =
     (case find (\<lambda>k. k \<in> set PROHIBITED_FILTER_OPERATORS) (all_keys (JObj f)) of
        None \<Rightarrow> Inr ()
      | Some k \<Rightarrow> Inl (Error (filter_message k)))"
proof -
  have e: "[] \<notin> set PROHIBITED_FILTER_OPERATORS"
    by (simp add: PROHIBITED_FILTER_OPERATORS_def)
  show ?thesis
  proof (cases "find (\<lambda>k. k \<in> set PROHIBITED_FILTER_OPERATORS) (all_keys (JObj f))")
    case None
    then show ?thesis
      unfolding validateFilter_def Let_def scan_is_find(1)[OF e] by simp
  next
    case (Some k)
    then have "k \<in> set PROHIBITED_FILTER_OPERATORS" by (rule find_holds)
    with e have "k \<noteq> []" by auto
    with Some show ?thesis
      unfolding validateFilter_def Let_def scan_is_find(1)[OF e] by simp
  qed
qed

lemma filter_message_literal:
  "filter_message k =
     ''Prohibited operator '' @ [CHR 0x22] @ k @ [CHR 0x22] @
     '' found in filter. The following operators are not allowed: $where, $function, $accumulator''"
  by (simp add: filter_message_def quoted_def PROHIBITED_FILTER_OPERATORS_def)

lemma prohibited_filter_operators_set:
  "(k \<in> set PROHIBITED_FILTER_OPERATORS) = (k \<in> {''$where'', ''$function'', ''$accumulator''})"
  by (simp add: PROHIBITED_FILTER_OPERATORS_def)

text \<open>
  C1. A filter that holds one of the three scripting operator keys \<open>$where\<close>,
  \<open>$function\<close>, \<open>$accumulator\<close> as a mapping key at any depth, inside combinators and
  inside array elements alike, is rejected by \<open>validateFilter\<close> with the error message
  \<open>Prohibited operator "k" found in filter. The following operators are not allowed:
  $where, $function, $accumulator\<close>, where \<open>k\<close> is such a key of the filter: the first one
  the depth-first walk meets. A filter that holds none of the three at any depth passes.
\<close>

theorem validateFilter_denylist:
  "(set (all_keys (JObj f)) \<inter> {''$where'', ''$function'', ''$accumulator''} \<noteq> {} \<longrightarrow>
      (\<exists>k. find (\<lambda>k. k \<in> {''$where'', ''$function'', ''$accumulator''}) (all_keys (JObj f)) = Some k
         \<and> k \<in> set (all_keys (JObj f)) \<and> k \<in> {''$where'', ''$function'', ''$accumulator''}
         \<and> validateFilter f =
             Inl (Error (''Prohibited operator '' @ [CHR 0x22] @ k @ [CHR 0x22] @
               '' found in filter. The following operators are not allowed: $where, $function, $accumulator''))))
   \<and> (set (all_keys (JObj f)) \<inter> {''$where'', ''$function'', ''$accumulator''} = {} \<longrightarrow>
        validateFilter f = Inr ())"
proof (intro conjI impI)
  let ?D = "{''$where'', ''$function'', ''$accumulator''}"
  have D: "set PROHIBITED_FILTER_OPERATORS = ?D"
    by (simp add: PROHIBITED_FILTER_OPERATORS_def)
  have F: "find (\<lambda>k. k \<in> set PROHIBITED_FILTER_OPERATORS) (all_keys (JObj f))
             = find (\<lambda>k. k \<in> ?D) (all_keys (JObj f))"
    by (simp only: D)
  {
    assume "set (all_keys (JObj f)) \<inter> ?D \<noteq> {}"
    then have "find (\<lambda>k. k \<in> ?D) (all_keys (JObj f)) \<noteq> None"
      by (simp only: find_None_disjoint) simp
    then obtain k where k: "find (\<lambda>k. k \<in> ?D) (all_keys (JObj f)) = Some k"
      by blast
    then have "k \<in> ?D" by (rule find_holds)
    moreover from k have "k \<in> set (all_keys (JObj f))"
      by (rule find_mem)
    moreover from k have "validateFilter f = Inl (Error (filter_message k))"
      by (simp only: validateFilter_find F option.case)
    ultimately show "\<exists>k. find (\<lambda>k. k \<in> ?D) (all_keys (JObj f)) = Some k
         \<and> k \<in> set (all_keys (JObj f)) \<and> k \<in> ?D
         \<and> validateFilter f =
             Inl (Error (''Prohibited operator '' @ [CHR 0x22] @ k @ [CHR 0x22] @
               '' found in filter. The following operators are not allowed: $where, $function, $accumulator''))"
      using k unfolding filter_message_literal by blast
  }
  {
    assume "set (all_keys (JObj f)) \<inter> ?D = {}"
    then have "find (\<lambda>k. k \<in> ?D) (all_keys (JObj f)) = None"
      by (simp only: find_None_disjoint)
    then show "validateFilter f = Inr ()"
      by (simp only: validateFilter_find F option.case)
  }
qed

theorem validateFilter_denylist_witness:
  "set (all_keys (JObj [(''$and'', JArr [JObj [(''age'', JNum (Fin 3))],
                                         JObj [(''$where'', JStr ''sleep(1)'')]])]))
       \<inter> {''$where'', ''$function'', ''$accumulator''} \<noteq> {}
   \<and> validateFilter [(''$and'', JArr [JObj [(''age'', JNum (Fin 3))],
                                       JObj [(''$where'', JStr ''sleep(1)'')]])]
       = Inl (Error (''Prohibited operator '' @ [CHR 0x22] @ ''$where'' @ [CHR 0x22] @
               '' found in filter. The following operators are not allowed: $where, $function, $accumulator''))
   \<and> set (all_keys (JObj [(''status'', JStr ''active'')]))
         \<inter> {''$where'', ''$function'', ''$accumulator''} = {}
   \<and> validateFilter [(''status'', JStr ''active'')] = Inr ()"
  using validateFilter_denylist
          [of "[(''$and'', JArr [JObj [(''age'', JNum (Fin 3))],
                                 JObj [(''$where'', JStr ''sleep(1)'')]])]"]
        validateFilter_denylist [of "[(''status'', JStr ''active'')]"]
  by simp

lemma check_stage_keys_ok:
  "check_stage_keys ks = Inr () \<longleftrightarrow> set ks \<inter> set PROHIBITED_STAGES = {}"
  by (induction ks) auto

lemma check_stage_keys_cases:
  "check_stage_keys ks = Inr () \<or> (\<exists>k. check_stage_keys ks = Inl (Error (stage_message k)))"
  by (induction ks) auto

lemma validatePipeline_ok:
  "validatePipeline p = Inr () \<longleftrightarrow> (\<forall>stage \<in> set p. validate_stage stage = Inr ())"
  by (induction p) (auto split: sum.splits)

lemma validatePipeline_error:
  "stage \<in> set p \<Longrightarrow> validate_stage stage = Inl e \<Longrightarrow> \<exists>e'. validatePipeline p = Inl e'"
  by (induction p) (auto split: sum.splits)

lemma validate_stage_ok:
  "validate_stage stage = Inr () \<longleftrightarrow>
     set (map fst stage) \<inter> set PROHIBITED_STAGES = {}
     \<and> check_lookup stage = Inr ()
     \<and> set (all_keys (JObj stage)) \<inter> {''$function'', ''$accumulator''} = {}"
proof -
  have e: "[] \<notin> set [''$function'', ''$accumulator'']" by simp
  have t: "truthy_found (containsProhibitedOperator (JObj stage) [''$function'', ''$accumulator''])
           \<longleftrightarrow> set (all_keys (JObj stage)) \<inter> {''$function'', ''$accumulator''} \<noteq> {}"
    unfolding scan_is_find(1)[OF e] using truthy_found_find[OF e, of "all_keys (JObj stage)"]
    by simp
  show ?thesis
  proof (cases "check_stage_keys (map fst stage)")
    case (Inl a)
    then have "check_stage_keys (map fst stage) \<noteq> Inr ()" by simp
    then have "set (map fst stage) \<inter> set PROHIBITED_STAGES \<noteq> {}"
      using check_stage_keys_ok[of "map fst stage"] by blast
    with Inl show ?thesis by (simp add: validate_stage_def)
  next
    case (Inr u)
    then have k: "set (map fst stage) \<inter> set PROHIBITED_STAGES = {}"
      using check_stage_keys_ok[of "map fst stage"] by simp
    show ?thesis
    proof (cases "check_lookup stage")
      case (Inl a)
      with Inr show ?thesis by (simp add: validate_stage_def)
    next
      case (Inr u')
      with \<open>check_stage_keys (map fst stage) = Inr u\<close> k t show ?thesis
        by (simp add: validate_stage_def Let_def)
    qed
  qed
qed

lemma validate_stage_total:
  "validate_stage stage = Inr () \<or> (\<exists>e. validate_stage stage = Inl e)"
  by (cases "validate_stage stage") auto

text \<open>
  C2. A pipeline with a stage that has \<open>$out\<close> or \<open>$merge\<close> as a top-level key is
  rejected by \<open>validatePipeline\<close>. The same names nested inside a stage's argument do not
  count: a pipeline whose stages have no denylisted top-level key, pass the \<open>$lookup\<close>
  check and hold no \<open>$function\<close> or \<open>$accumulator\<close> key at any depth is accepted,
  whatever else is nested in it. \<open>$function\<close> or \<open>$accumulator\<close> at any depth of any
  stage is rejected.
\<close>

theorem validatePipeline_write_stages:
  "(stage \<in> set p \<and> (key_in ''$out'' stage \<or> key_in ''$merge'' stage) \<longrightarrow>
      (\<exists>e. validatePipeline p = Inl e))
   \<and> ((\<forall>s \<in> set p. set (map fst s) \<inter> set PROHIBITED_STAGES = {}
                    \<and> check_lookup s = Inr ()
                    \<and> set (all_keys (JObj s)) \<inter> {''$function'', ''$accumulator''} = {}) \<longrightarrow>
        validatePipeline p = Inr ())
   \<and> (stage \<in> set p \<and> (''$function'' \<in> set (all_keys (JObj stage))
                        \<or> ''$accumulator'' \<in> set (all_keys (JObj stage))) \<longrightarrow>
        (\<exists>e. validatePipeline p = Inl e))"
proof (intro conjI impI)
  assume a: "stage \<in> set p \<and> (key_in ''$out'' stage \<or> key_in ''$merge'' stage)"
  then have "set (map fst stage) \<inter> set PROHIBITED_STAGES \<noteq> {}"
    by (auto simp: key_in_def PROHIBITED_STAGES_def)
  then have "validate_stage stage \<noteq> Inr ()"
    using validate_stage_ok[of stage] by blast
  then obtain e where "validate_stage stage = Inl e"
    using validate_stage_total[of stage] by blast
  with a show "\<exists>e. validatePipeline p = Inl e" by (blast intro: validatePipeline_error)
next
  assume "\<forall>s \<in> set p. set (map fst s) \<inter> set PROHIBITED_STAGES = {}
                    \<and> check_lookup s = Inr ()
                    \<and> set (all_keys (JObj s)) \<inter> {''$function'', ''$accumulator''} = {}"
  then show "validatePipeline p = Inr ()"
    by (simp add: validatePipeline_ok validate_stage_ok)
next
  assume a: "stage \<in> set p \<and> (''$function'' \<in> set (all_keys (JObj stage))
                        \<or> ''$accumulator'' \<in> set (all_keys (JObj stage)))"
  then have "set (all_keys (JObj stage)) \<inter> {''$function'', ''$accumulator''} \<noteq> {}"
    by blast
  then have "validate_stage stage \<noteq> Inr ()"
    using validate_stage_ok[of stage] by blast
  then obtain e where "validate_stage stage = Inl e"
    using validate_stage_total[of stage] by blast
  with a show "\<exists>e. validatePipeline p = Inl e" by (blast intro: validatePipeline_error)
qed

theorem validatePipeline_write_stages_witness:
  "[(''$out'', JStr ''archive'')] \<in> set [[(''$match'', JObj [])], [(''$out'', JStr ''archive'')]]
   \<and> key_in ''$out'' [(''$out'', JStr ''archive'')]
   \<and> validatePipeline [[(''$match'', JObj [])], [(''$out'', JStr ''archive'')]]
       = Inl (Error (stage_message ''$out''))
   \<and> set (map fst [(''$facet'', JObj [(''a'', JArr [JObj [(''$out'', JStr ''archive'')]])])])
         \<inter> set PROHIBITED_STAGES = {}
   \<and> check_lookup [(''$facet'', JObj [(''a'', JArr [JObj [(''$out'', JStr ''archive'')]])])]
       = Inr ()
   \<and> set (all_keys (JObj [(''$facet'', JObj [(''a'', JArr [JObj [(''$out'', JStr ''archive'')]])])]))
         \<inter> {''$function'', ''$accumulator''} = {}
   \<and> ''$out'' \<in> set (all_keys
         (JObj [(''$facet'', JObj [(''a'', JArr [JObj [(''$out'', JStr ''archive'')]])])]))
   \<and> validatePipeline [[(''$facet'', JObj [(''a'', JArr [JObj [(''$out'', JStr ''archive'')]])])]]
       = Inr ()
   \<and> ''$accumulator'' \<in> set (all_keys
         (JObj [(''$group'', JObj [(''_id'', JNull), (''n'', JObj [(''$accumulator'', JObj [])])])]))
   \<and> validatePipeline
         [[(''$group'', JObj [(''_id'', JNull), (''n'', JObj [(''$accumulator'', JObj [])])])]]
       = Inl (Error (stage_operator_message ''$accumulator''))"
  using validatePipeline_write_stages
          [of "[(''$out'', JStr ''archive'')]"
              "[[(''$match'', JObj [])], [(''$out'', JStr ''archive'')]]"]
        validatePipeline_write_stages
          [of "[(''$facet'', JObj [(''a'', JArr [JObj [(''$out'', JStr ''archive'')]])])]"
              "[[(''$facet'', JObj [(''a'', JArr [JObj [(''$out'', JStr ''archive'')]])])]]"]
        validatePipeline_write_stages
          [of "[(''$group'', JObj [(''_id'', JNull), (''n'', JObj [(''$accumulator'', JObj [])])])]"
              "[[(''$group'', JObj [(''_id'', JNull), (''n'', JObj [(''$accumulator'', JObj [])])])]]"]
  by (simp add: key_in_def PROHIBITED_STAGES_def check_lookup_def validate_stage_def)

lemma check_lookup_pipeline:
  assumes "map_of stage ''$lookup'' = Some (JObj lookup)" and "key_in ''pipeline'' lookup"
  shows "check_lookup stage = Inl (Error lookup_message)"
proof -
  from assms(1) have "(''$lookup'', JObj lookup) \<in> set stage" by (rule map_of_SomeD)
  then have "key_in ''$lookup'' stage" unfolding key_in_def by force
  with assms show ?thesis by (simp add: check_lookup_def)
qed

text \<open>
  C3. A pipeline with a stage whose \<open>$lookup\<close> value is a mapping that has the key
  \<open>pipeline\<close> is rejected by \<open>validatePipeline\<close>, whatever the sub-pipeline and the
  rest of the mapping hold.
\<close>

theorem validatePipeline_lookup_pipeline:
  assumes "stage \<in> set p"
    and "map_of stage ''$lookup'' = Some (JObj lookup)"
    and "key_in ''pipeline'' lookup"
  shows "\<exists>e. validatePipeline p = Inl e"
proof -
  have "check_lookup stage \<noteq> Inr ()"
    using check_lookup_pipeline[OF assms(2,3)] by simp
  then have "validate_stage stage \<noteq> Inr ()"
    using validate_stage_ok[of stage] by blast
  then obtain e where "validate_stage stage = Inl e"
    using validate_stage_total[of stage] by blast
  with assms(1) show ?thesis by (blast intro: validatePipeline_error)
qed

theorem validatePipeline_lookup_pipeline_witness:
  "[(''$lookup'', JObj [(''from'', JStr ''orders''), (''pipeline'', JArr [])])]
     \<in> set [[(''$lookup'', JObj [(''from'', JStr ''orders''), (''pipeline'', JArr [])])]]
   \<and> map_of [(''$lookup'', JObj [(''from'', JStr ''orders''), (''pipeline'', JArr [])])] ''$lookup''
       = Some (JObj [(''from'', JStr ''orders''), (''pipeline'', JArr [])])
   \<and> key_in ''pipeline'' [(''from'', JStr ''orders''), (''pipeline'', JArr [])]
   \<and> validatePipeline [[(''$lookup'', JObj [(''from'', JStr ''orders''), (''pipeline'', JArr [])])]]
       = Inl (Error lookup_message)"
  using validatePipeline_lookup_pipeline
          [of "[(''$lookup'', JObj [(''from'', JStr ''orders''), (''pipeline'', JArr [])])]"
              "[[(''$lookup'', JObj [(''from'', JStr ''orders''), (''pipeline'', JArr [])])]]"
              "[(''from'', JStr ''orders''), (''pipeline'', JArr [])]"]
  by (simp add: key_in_def PROHIBITED_STAGES_def check_lookup_def validate_stage_def)

text \<open>
  C10. \<open>validatePipeline\<close> is not total over stage shapes: on the pipeline whose only
  stage maps \<open>$lookup\<close> to the string \<open>x\<close>, a truthy value that is no mapping, the
  membership test \<open>"pipeline" in lookup\<close> throws a TypeError; the pipeline is neither
  accepted nor rejected with a policy error that names a key.
\<close>

theorem validatePipeline_lookup_TypeError:
  "validatePipeline [[(''$lookup'', JStr ''x'')]] = Inl TypeError"
  by (simp add: key_in_def PROHIBITED_STAGES_def check_lookup_def validate_stage_def)

text \<open>
  C4. \<open>applyLimit r\<close> is \<open>r\<close> for \<open>1 \<le> r \<le> 100\<close>, 100 for \<open>r > 100\<close> and 10 for
  \<open>r \<le> 0\<close> or an absent \<open>r\<close>; \<open>applySampleSize r\<close> is \<open>r\<close> for
  \<open>1 \<le> r \<le> 1000\<close>, 1000 for \<open>r > 1000\<close> and 100 for \<open>r \<le> 0\<close> or an absent
  \<open>r\<close>. Both are total: they have no path that throws, and return a number on every
  argument.
\<close>

theorem applyLimit_applySampleSize_clamp:
  "(1 \<le> r \<and> r \<le> 100 \<longrightarrow> applyLimit (Given (Fin r)) = Fin r)
   \<and> (r > 100 \<longrightarrow> applyLimit (Given (Fin r)) = Fin 100)
   \<and> (r \<le> 0 \<longrightarrow> applyLimit (Given (Fin r)) = Fin 10)
   \<and> applyLimit (Given PosInf) = Fin 100
   \<and> applyLimit (Given NegInf) = Fin 10
   \<and> applyLimit Undefined = Fin 10
   \<and> applyLimit Null = Fin 10
   \<and> (1 \<le> r \<and> r \<le> 1000 \<longrightarrow> applySampleSize (Given (Fin r)) = Fin r)
   \<and> (r > 1000 \<longrightarrow> applySampleSize (Given (Fin r)) = Fin 1000)
   \<and> (r \<le> 0 \<longrightarrow> applySampleSize (Given (Fin r)) = Fin 100)
   \<and> applySampleSize (Given PosInf) = Fin 1000
   \<and> applySampleSize (Given NegInf) = Fin 100
   \<and> applySampleSize Undefined = Fin 100
   \<and> applySampleSize Null = Fin 100"
  by (simp add: SECURITY_LIMITS_def)

theorem applyLimit_applySampleSize_clamp_witness:
  "(1::real) \<le> 42 \<and> (42::real) \<le> 100 \<and> applyLimit (Given (Fin 42)) = Fin 42
   \<and> (250::real) > 100 \<and> applyLimit (Given (Fin 250)) = Fin 100
   \<and> (-3::real) \<le> 0 \<and> applyLimit (Given (Fin (-3))) = Fin 10
   \<and> (1::real) \<le> 420 \<and> (420::real) \<le> 1000 \<and> applySampleSize (Given (Fin 420)) = Fin 420
   \<and> (2500::real) > 1000 \<and> applySampleSize (Given (Fin 2500)) = Fin 1000
   \<and> applySampleSize (Given (Fin (-3))) = Fin 100"
  using applyLimit_applySampleSize_clamp [of 42] applyLimit_applySampleSize_clamp [of 250]
        applyLimit_applySampleSize_clamp [of "-3"] applyLimit_applySampleSize_clamp [of 420]
        applyLimit_applySampleSize_clamp [of 2500]
  by simp

lemma getDatabaseName_ok: "getDatabase e = Inr () \<Longrightarrow> \<exists>n. getDatabaseName e = Inr n"
  by (auto simp: getDatabase_def getDatabaseName_def split: if_splits)

text \<open>
  C5. For a pipeline that passes validation (and a configured, reachable database), the
  aggregate tool calls the database client with the caller's pipeline followed by the one
  stage \<open>{$limit: 100}\<close> when no stage has a \<open>$limit\<close> key, and with the caller's
  pipeline as it is when some stage has one.
\<close>

theorem aggregateTool_limit_stage:
  assumes "validatePipeline p = Inr ()" and "getDatabase e = Inr ()"
  shows "\<exists>call. aggregateTool e c p = Inr call
           \<and> call_pipeline call =
               (if list_ex (\<lambda>stage. key_in ''$limit'' stage) p then p
                else p @ [[(''$limit'', JNum (Fin 100))]])"
proof -
  from assms(2) obtain n where "getDatabaseName e = Inr n"
    using getDatabaseName_ok by blast
  with assms show ?thesis
    by (simp add: aggregateTool_def hasLimitStage_def SECURITY_LIMITS_def)
qed

theorem aggregateTool_limit_stage_witness:
  "validatePipeline [[(''$match'', JObj [(''status'', JStr ''active'')])]] = Inr ()
   \<and> validatePipeline [[(''$limit'', JNum (Fin 5))], [(''$sort'', JObj [(''n'', JNum (Fin 1))])]]
       = Inr ()
   \<and> getDatabase \<lparr> MONGODB_URI = Some ''mongodb://h'', MONGODB_DB = Some ''shop'',
                      connect_failure = None \<rparr> = Inr ()
   \<and> map_sum id call_pipeline
        (aggregateTool \<lparr> MONGODB_URI = Some ''mongodb://h'', MONGODB_DB = Some ''shop'',
                           connect_failure = None \<rparr> ''orders''
           [[(''$match'', JObj [(''status'', JStr ''active'')])]])
       = Inr [[(''$match'', JObj [(''status'', JStr ''active'')])], [(''$limit'', JNum (Fin 100))]]
   \<and> map_sum id call_pipeline
        (aggregateTool \<lparr> MONGODB_URI = Some ''mongodb://h'', MONGODB_DB = Some ''shop'',
                           connect_failure = None \<rparr> ''orders''
           [[(''$limit'', JNum (Fin 5))], [(''$sort'', JObj [(''n'', JNum (Fin 1))])]])
       = Inr [[(''$limit'', JNum (Fin 5))], [(''$sort'', JObj [(''n'', JNum (Fin 1))])]]"
  using aggregateTool_limit_stage
          [of "[[(''$match'', JObj [(''status'', JStr ''active'')])]]"
              "\<lparr> MONGODB_URI = Some ''mongodb://h'', MONGODB_DB = Some ''shop'',
                 connect_failure = None \<rparr>" "''orders''"]
        aggregateTool_limit_stage
          [of "[[(''$limit'', JNum (Fin 5))], [(''$sort'', JObj [(''n'', JNum (Fin 1))])]]"
              "\<lparr> MONGODB_URI = Some ''mongodb://h'', MONGODB_DB = Some ''shop'',
                 connect_failure = None \<rparr>" "''orders''"]
  by (simp add: key_in_def PROHIBITED_STAGES_def check_lookup_def validate_stage_def
        getDatabase_def getMongoClient_def getDatabaseName_def aggregateTool_def
        hasLimitStage_def SECURITY_LIMITS_def)

section \<open>Properties of the schema inferencer\<close>

subsection \<open>The walk\<close>

lemma fold_update_keys:
  "fst ` set (fold (\<lambda>(k, v). AList.update k v) xs al) = fst ` set al \<union> fst ` set xs"
proof (induction xs arbitrary: al)
  case Nil
  then show ?case by simp
next
  case (Cons x xs)
  have "fst ` set (fold (\<lambda>(k, v). AList.update k v) (x # xs) al)
          = fst ` set (AList.update (fst x) (snd x) al) \<union> fst ` set xs"
    by (cases x) (simp add: Cons.IH)
  also have "\<dots> = ({fst x} \<union> fst ` set al) \<union> fst ` set xs"
    by (simp only: dom_update)
  also have "\<dots> = fst ` set al \<union> fst ` set (x # xs)"
    by auto
  finally show ?case .
qed

lemma fold_update_distinct:
  "distinct (map fst al) \<Longrightarrow> distinct (map fst (fold (\<lambda>(k, v). AList.update k v) xs al))"
  by (induction xs arbitrary: al) (auto simp: distinct_update)

lemma fold_update_other:
  "k \<notin> fst ` set xs \<Longrightarrow> map_of (fold (\<lambda>(k, v). AList.update k v) xs al) k = map_of al k"
  by (induction xs arbitrary: al) (auto simp: update_conv')

lemma extract_distinct:
  "distinct (map fst (extractFields doc prefix))"
  "distinct (map fst fmap) \<Longrightarrow> distinct (map fst (extract_loop doc prefix fmap))"
proof (induction doc prefix and doc prefix fmap rule: extractFields_extract_loop.induct)
  case (3 key val rest prefix fmap)
  then show ?case
    by (simp add: Let_def distinct_update fold_update_distinct)
qed simp_all

lemma nested_paths_dotted:
  "prefix \<noteq> [] \<Longrightarrow> fst ` set (extractFields doc prefix) \<subseteq> {p. CHR ''.'' \<in> set p}"
  "prefix \<noteq> [] \<Longrightarrow>
     fst ` set (extract_loop doc prefix fmap) \<subseteq> fst ` set fmap \<union> {p. CHR ''.'' \<in> set p}"
proof (induction doc prefix and doc prefix fmap rule: extractFields_extract_loop.induct)
  case (1 doc prefix)
  then show ?case by simp
next
  case (2 prefix fmap)
  then show ?case by simp
next
  case (3 key val rest prefix fmap)
  let ?path = "prefix @ ''.'' @ key"
  let ?fmap1 = "AList.update ?path (getBsonType val) fmap"
  let ?fmap2 = "if is_nested_object val
                then fold (\<lambda>(nestedPath, nestedType). AList.update nestedPath nestedType)
                       (extractFields (Object_entries val) ?path) ?fmap1
                else ?fmap1"
  have k1: "fst ` set ?fmap1 \<subseteq> fst ` set fmap \<union> {p. CHR ''.'' \<in> set p}"
    by (auto simp: dom_update)
  have k2: "fst ` set ?fmap2 \<subseteq> fst ` set fmap \<union> {p. CHR ''.'' \<in> set p}"
  proof (cases "is_nested_object val")
    case True
    have "fst ` set (extractFields (Object_entries val) ?path) \<subseteq> {p. CHR ''.'' \<in> set p}"
      using 3(1)[of ?path "AList.update ?path (getBsonType val) fmap"] 3(3) True by simp
    with k1 True show ?thesis by (simp only: fold_update_keys if_True) blast
  next
    case False
    with k1 show ?thesis by simp
  qed
  have "fst ` set (extract_loop rest prefix ?fmap2)
          \<subseteq> fst ` set ?fmap2 \<union> {p. CHR ''.'' \<in> set p}"
    using 3(2)[of ?path ?fmap1 ?fmap2] 3(3) by simp
  with k2 have "fst ` set (extract_loop rest prefix ?fmap2)
          \<subseteq> fst ` set fmap \<union> {p. CHR ''.'' \<in> set p}" by blast
  moreover have "extract_loop ((key, val) # rest) prefix fmap = extract_loop rest prefix ?fmap2"
    using 3(3) by (simp add: Let_def)
  ultimately show ?case by (simp only:)
qed

lemma top_level_loop:
  assumes "[] \<notin> set (map fst doc)" and "distinct (map fst doc)" and "CHR ''.'' \<notin> set k"
  shows "map_of (extract_loop doc [] fmap) k =
           (case map_of doc k of None \<Rightarrow> map_of fmap k | Some v \<Rightarrow> Some (getBsonType v))"
  using assms
proof (induction doc arbitrary: fmap)
  case Nil
  then show ?case by simp
next
  case (Cons e rest)
  obtain key val where e: "e = (key, val)" by (cases e)
  let ?fmap1 = "AList.update key (getBsonType val) fmap"
  let ?fmap2 = "if is_nested_object val
                then fold (\<lambda>(nestedPath, nestedType). AList.update nestedPath nestedType)
                       (extractFields (Object_entries val) key) ?fmap1
                else ?fmap1"
  from Cons.prems e have key: "key \<noteq> []" by auto
  have "k \<notin> fst ` set (extractFields (Object_entries val) key)"
    using nested_paths_dotted(1)[OF key, of "Object_entries val"] Cons.prems(3) by blast
  then have m2: "map_of ?fmap2 k = map_of ?fmap1 k"
    by (simp add: fold_update_other)
  have step: "extract_loop (e # rest) [] fmap = extract_loop rest [] ?fmap2"
    using e by (simp add: Let_def)
  have ih: "map_of (extract_loop rest [] ?fmap2) k =
           (case map_of rest k of None \<Rightarrow> map_of ?fmap2 k | Some v \<Rightarrow> Some (getBsonType v))"
    using Cons.IH[of ?fmap2] Cons.prems by simp
  show ?case
  proof (cases "key = k")
    case True
    with Cons.prems(2) e have "k \<notin> fst ` set rest" by auto
    then have "map_of rest k = None" by (simp add: map_of_eq_None_iff)
    with True e show ?thesis
      unfolding step ih m2 by (simp add: update_conv')
  next
    case False
    with e show ?thesis
      unfolding step ih m2 by (simp add: update_conv' split: option.splits)
  qed
qed

lemma recorded_top_level:
  "plain_keys doc \<Longrightarrow> CHR ''.'' \<notin> set k \<Longrightarrow> recorded doc k = field_kind doc k"
  by (simp add: recorded_def field_kind_def plain_keys_def top_level_loop split: option.splits)


lemma map_of_rev_append:
  "map_of (rev (xs @ ys)) p = (case map_of (rev ys) p of None \<Rightarrow> map_of (rev xs) p | Some t \<Rightarrow> Some t)"
  by (simp add: map_add_def split: option.splits)


subsection \<open>The tally\<close>

lemma foldl_plus_sum_list: "foldl (+) a xs = a + sum_list xs" for a :: nat
  by (induction xs arbitrary: a) simp_all

lemma update_sum:
  "sum_list (map snd (AList.update k v al)) + (case map_of al k of None \<Rightarrow> 0 | Some n \<Rightarrow> n)
     = sum_list (map snd al) + v" for v :: nat
  by (induction al) auto

lemma increment_sum: "sum_list (map snd (increment t tc)) = Suc (sum_list (map snd tc))"
  using update_sum[of t "(case map_of tc t of None \<Rightarrow> 0 | Some n \<Rightarrow> n) + 1" tc]
  by (simp add: increment_def)

lemma increment_keys: "set (map fst (increment t tc)) = insert t (set (map fst tc))"
  using dom_update[of t _ tc] by (simp add: increment_def)

lemma increment_distinct: "distinct (map fst tc) \<Longrightarrow> distinct (map fst (increment t tc))"
  by (simp add: increment_def distinct_update)

text \<open>What one field of one document does to the entry of a path.\<close>

lemma count_field_at:
  "map_of (count_field (q, t) stats) p =
     (if p = q then Some (increment t (case map_of stats q of None \<Rightarrow> [] | Some tc \<Rightarrow> tc))
      else map_of stats p)"
  by (cases "map_of stats q") (simp_all add: count_field_def Let_def update_conv')

lemma count_field_distinct:
  "distinct (map fst stats) \<Longrightarrow> distinct (map fst (count_field e stats))"
  by (cases e) (simp add: count_field_def Let_def distinct_update)

lemma fold_count_field_distinct:
  "distinct (map fst stats) \<Longrightarrow> distinct (map fst (fold count_field al stats))"
  by (induction al arbitrary: stats) (simp_all add: count_field_distinct)

text \<open>What one document does to the entry of a path: its fields have distinct paths.\<close>

lemma fold_count_field_at:
  "distinct (map fst al) \<Longrightarrow>
   map_of (fold count_field al stats) p =
     (case map_of al p of
        None \<Rightarrow> map_of stats p
      | Some t \<Rightarrow> Some (increment t (case map_of stats p of None \<Rightarrow> [] | Some tc \<Rightarrow> tc)))"
proof (induction al arbitrary: stats)
  case Nil
  then show ?case by simp
next
  case (Cons e al)
  obtain q t where e: "e = (q, t)" by (cases e)
  from Cons.prems e have d: "distinct (map fst al)" and q: "q \<notin> fst ` set al" by auto
  from q have n: "map_of al q = None" by (simp add: map_of_eq_None_iff)
  have "map_of (fold count_field (e # al) stats) p
          = map_of (fold count_field al (count_field (q, t) stats)) p"
    using e by simp
  also have "\<dots> = (case map_of al p of
        None \<Rightarrow> map_of (count_field (q, t) stats) p
      | Some t' \<Rightarrow> Some (increment t'
          (case map_of (count_field (q, t) stats) p of None \<Rightarrow> [] | Some tc \<Rightarrow> tc)))"
    by (rule Cons.IH[OF d])
  finally have main: "map_of (fold count_field (e # al) stats) p
      = (case map_of al p of
        None \<Rightarrow> map_of (count_field (q, t) stats) p
      | Some t' \<Rightarrow> Some (increment t'
          (case map_of (count_field (q, t) stats) p of None \<Rightarrow> [] | Some tc \<Rightarrow> tc)))" .
  show ?case
  proof (cases "p = q")
    case True
    with e n main show ?thesis by (simp add: count_field_at)
  next
    case False
    with e main show ?thesis by (simp add: count_field_at cong: option.case_cong)
  qed
qed

lemma collect_stats_snoc:
  "collect_stats (docs @ [doc]) = fold count_field (extractFields doc []) (collect_stats docs)"
  by (simp add: collect_stats_def)

lemma collect_stats_distinct: "distinct (map fst (collect_stats docs))"
proof (induction docs rule: rev_induct)
  case Nil
  then show ?case by (simp add: collect_stats_def)
next
  case (snoc doc docs)
  then show ?case by (simp only: collect_stats_snoc fold_count_field_distinct)
qed

lemma collect_stats_at_snoc:
  "map_of (collect_stats (docs @ [doc])) p =
     (case recorded doc p of
        None \<Rightarrow> map_of (collect_stats docs) p
      | Some t \<Rightarrow>
          Some (increment t (case map_of (collect_stats docs) p of None \<Rightarrow> [] | Some tc \<Rightarrow> tc)))"
  unfolding collect_stats_snoc recorded_def
  by (rule fold_count_field_at) (rule extract_distinct(1))

lemma presence_snoc:
  "presence (docs @ [doc]) p = presence docs p + (if recorded doc p = None then 0 else 1)"
  by (simp add: presence_def)

lemma kinds_seen_snoc:
  "kinds_seen (docs @ [doc]) p =
     kinds_seen docs p \<union> (case recorded doc p of None \<Rightarrow> {} | Some t \<Rightarrow> {t})"
  by (auto simp: kinds_seen_def List.map_filter_def split: option.splits)


text \<open>
  The entry of a path after the whole sample: its type names are the kinds recorded for the
  path, and its counts add up to the number of documents that have the path.
\<close>

lemma collect_stats_entry:
  "(case map_of (collect_stats docs) p of
      None \<Rightarrow> presence docs p = 0 \<and> kinds_seen docs p = {}
    | Some tc \<Rightarrow> distinct (map fst tc) \<and> set (map fst tc) = kinds_seen docs p
        \<and> sum_list (map snd tc) = presence docs p \<and> 0 < presence docs p)"
proof (induction docs rule: rev_induct)
  case Nil
  then show ?case
    by (simp add: collect_stats_def presence_def kinds_seen_def List.map_filter_def)
next
  case (snoc doc docs)
  show ?case
  proof (cases "recorded doc p")
    case None
    with snoc show ?thesis
      by (simp add: collect_stats_at_snoc presence_snoc kinds_seen_snoc split: option.splits)
  next
    case (Some t)
    show ?thesis
    proof (cases "map_of (collect_stats docs) p")
      case None
      with snoc have "presence docs p = 0" "kinds_seen docs p = {}" by simp_all
      with Some None show ?thesis
        by (simp add: collect_stats_at_snoc presence_snoc kinds_seen_snoc
              increment_sum increment_keys increment_distinct del: set_map)
    next
      case (Some tc)
      with snoc have "distinct (map fst tc)" "set (map fst tc) = kinds_seen docs p"
        "sum_list (map snd tc) = presence docs p" by simp_all
      with Some \<open>recorded doc p = Some t\<close> show ?thesis
        by (simp add: collect_stats_at_snoc presence_snoc kinds_seen_snoc
              increment_sum increment_keys increment_distinct del: set_map)
    qed
  qed
qed

lemma build_schema_at:
  "distinct (map fst al) \<Longrightarrow>
   fold (\<lambda>(fieldPath, typeCounts) schema. assign_property schema fieldPath (f typeCounts)) al m p =
     (if p = ''__proto__'' then m p
      else case map_of al p of None \<Rightarrow> m p | Some tc \<Rightarrow> Some (f tc))"
proof (induction al arbitrary: m)
  case Nil
  then show ?case by simp
next
  case (Cons e al)
  obtain k tc where e: "e = (k, tc)" by (cases e)
  from Cons.prems e have d: "distinct (map fst al)" and k: "k \<notin> fst ` set al" by auto
  from k have n: "map_of al k = None" by (simp add: map_of_eq_None_iff)
  have "fold (\<lambda>(fieldPath, typeCounts) schema. assign_property schema fieldPath (f typeCounts))
          (e # al) m p
        = fold (\<lambda>(fieldPath, typeCounts) schema. assign_property schema fieldPath (f typeCounts))
          al (assign_property m k (f tc)) p"
    using e by simp
  also have "\<dots> = (if p = ''__proto__'' then assign_property m k (f tc) p
      else case map_of al p of None \<Rightarrow> assign_property m k (f tc) p | Some tc \<Rightarrow> Some (f tc))"
    by (rule Cons.IH[OF d])
  finally show ?case using e n
    by (auto simp: assign_property_def split: option.splits)
qed

lemma inferSchema_at:
  "docs \<noteq> [] \<Longrightarrow>
   inferSchema docs p =
     (if p = ''__proto__'' then None
      else map_option (field_schema (length docs)) (map_of (collect_stats docs) p))"
  using build_schema_at[OF collect_stats_distinct, of "field_schema (length docs)" docs Map.empty p]
  by (simp add: inferSchema_def Let_def split: option.splits)

lemma field_schema_sel:
  "types (field_schema n tc) = sort (map fst tc)"
  "percentage (field_schema n tc) = percentage_of (sum_list (map snd tc)) n"
  by (simp_all add: field_schema_def Let_def foldl_plus_sum_list)

lemma inferSchema_entry:
  assumes "inferSchema docs p = Some fs"
  shows "docs \<noteq> []" and "p \<noteq> ''__proto__''"
    and "percentage fs = percentage_of (presence docs p) (length docs)"
    and "set (types fs) = kinds_seen docs p" and "sorted (types fs)" and "distinct (types fs)"
    and "0 < presence docs p"
proof -
  show ne: "docs \<noteq> []" using assms by (auto simp: inferSchema_def)
  show pr: "p \<noteq> ''__proto__''" using assms inferSchema_at[OF ne, of p] by auto
  from assms inferSchema_at[OF ne, of p] pr obtain tc
    where tc: "map_of (collect_stats docs) p = Some tc" and fs: "fs = field_schema (length docs) tc"
    by auto
  from tc collect_stats_entry[of docs p]
  have inv: "distinct (map fst tc)" "set (map fst tc) = kinds_seen docs p"
    "sum_list (map snd tc) = presence docs p" "0 < presence docs p"
    by simp_all
  show "percentage fs = percentage_of (presence docs p) (length docs)"
    using fs inv by (simp add: field_schema_sel)
  show "set (types fs) = kinds_seen docs p"
    using fs inv by (simp add: field_schema_sel del: set_map)
  show "sorted (types fs)" using fs by (simp add: field_schema_sel)
  show "distinct (types fs)" using fs inv by (simp add: field_schema_sel)
  show "0 < presence docs p" by (rule inv)
qed

subsection \<open>Rounding to doubles\<close>

lemma pow2_powi: "pow2 e = 2 powi e"
  by (simp add: pow2_def power_int_def power_one_over inverse_eq_divide)

lemma pow2_pos: "0 < pow2 e"
  by (simp add: pow2_powi)

lemma pow2_add: "pow2 (a + b) = pow2 a * pow2 b"
  by (simp add: pow2_powi power_int_add)

lemma pow2_numerals: "pow2 0 = 1" "pow2 1 = 2" "pow2 52 = 2 ^ 52" "pow2 53 = 2 ^ 53"
  by (simp_all add: pow2_def)

lemma pow2_Suc: "pow2 (e + 1) = 2 * pow2 e"
  using pow2_add[of e 1] by (simp add: pow2_numerals)

lemma pow2_pred: "pow2 (e - 1) = pow2 e / 2"
  using pow2_Suc[of "e - 1"] by simp

lemma pow2_mono: "a \<le> b \<Longrightarrow> pow2 a \<le> pow2 b"
  by (simp add: pow2_powi power_int_increasing)

lemma pow2_less_cancel: "pow2 a < pow2 b \<Longrightarrow> a < b"
  using pow2_mono[of b a] by (cases "a < b") auto

lemma ilog2_bounds: "0 < x \<Longrightarrow> pow2 (ilog2 x) \<le> x \<and> x < pow2 (ilog2 x + 1)"
proof (induction x rule: ilog2.induct)
  case (1 x)
  show ?case
  proof (cases "x < 1")
    case True
    with 1 have e: "ilog2 x = ilog2 (2 * x) - 1" by (simp add: ilog2.simps[of x])
    have p: "pow2 (ilog2 x) = pow2 (ilog2 (2 * x)) / 2" unfolding e by (rule pow2_pred)
    have q: "pow2 (ilog2 x + 1) = pow2 (ilog2 (2 * x))" unfolding e by simp
    from 1 True have "pow2 (ilog2 (2 * x)) \<le> 2 * x \<and> 2 * x < pow2 (ilog2 (2 * x) + 1)"
      by simp
    then show ?thesis unfolding p q by (simp add: pow2_Suc)
  next
    case False
    show ?thesis
    proof (cases "2 \<le> x")
      case True
      with 1 False have e: "ilog2 x = ilog2 (x / 2) + 1" by (simp add: ilog2.simps[of x])
      have p: "pow2 (ilog2 x) = 2 * pow2 (ilog2 (x / 2))" unfolding e by (rule pow2_Suc)
      have q: "pow2 (ilog2 x + 1) = 2 * pow2 (ilog2 (x / 2) + 1)" unfolding e by (rule pow2_Suc)
      from 1 False True have "pow2 (ilog2 (x / 2)) \<le> x / 2 \<and> x / 2 < pow2 (ilog2 (x / 2) + 1)"
        by simp
      then show ?thesis unfolding p q by simp
    next
      case lt2: False
      with 1 \<open>\<not> x < 1\<close> have e: "ilog2 x = 0" by (simp add: ilog2.simps[of x])
      with lt2 \<open>\<not> x < 1\<close> show ?thesis by (simp add: pow2_numerals)
    qed
  qed
qed

lemma ilog2_unique:
  assumes "0 < x" and "pow2 e \<le> x" and "x < pow2 (e + 1)"
  shows "ilog2 x = e"
proof -
  from ilog2_bounds[OF assms(1)] have b: "pow2 (ilog2 x) \<le> x" "x < pow2 (ilog2 x + 1)"
    by simp_all
  from assms(2) b(2) have "pow2 e < pow2 (ilog2 x + 1)" by simp
  then have "e < ilog2 x + 1" by (rule pow2_less_cancel)
  moreover from b(1) assms(3) have "pow2 (ilog2 x) < pow2 (e + 1)" by simp
  then have "ilog2 x < e + 1" by (rule pow2_less_cancel)
  ultimately show ?thesis by simp
qed

lemma round_half_even_of_int: "round_half_even (of_int n) = n"
  by (simp add: round_half_even_def)

lemma round_half_even_floor: "\<lfloor>x\<rfloor> \<le> round_half_even x" "round_half_even x \<le> \<lfloor>x\<rfloor> + 1"
  by (simp_all add: round_half_even_def Let_def)

lemma round_half_even_mono:
  assumes "x \<le> y"
  shows "round_half_even x \<le> round_half_even y"
proof (cases "\<lfloor>x\<rfloor> = \<lfloor>y\<rfloor>")
  case True
  with assms have "x - of_int \<lfloor>x\<rfloor> \<le> y - of_int \<lfloor>y\<rfloor>" by simp
  with True show ?thesis
    by (auto simp: round_half_even_def Let_def)
next
  case False
  from assms have "\<lfloor>x\<rfloor> \<le> \<lfloor>y\<rfloor>" by (rule floor_mono)
  with False have "\<lfloor>x\<rfloor> + 1 \<le> \<lfloor>y\<rfloor>" by simp
  with round_half_even_floor(2)[of x] round_half_even_floor(1)[of y] show ?thesis by simp
qed

lemma fl_pos_def:
  "0 < x \<Longrightarrow> fl x = of_int (round_half_even (x / pow2 (ilog2 x - 52))) * pow2 (ilog2 x - 52)"
  by (simp add: fl_def Let_def)

lemma fl_lower:
  assumes "0 < x"
  shows "pow2 (ilog2 x) \<le> fl x"
proof -
  let ?u = "pow2 (ilog2 x - 52)"
  have u: "0 < ?u" by (rule pow2_pos)
  have p: "pow2 (ilog2 x) = 2 ^ 52 * ?u"
    using pow2_add[of 52 "ilog2 x - 52"] by (simp add: pow2_numerals)
  from ilog2_bounds[OF assms] have "2 ^ 52 * ?u \<le> x" unfolding p by simp
  with u have "2 ^ 52 \<le> x / ?u" by (simp add: pos_le_divide_eq)
  then have "round_half_even (of_int (2 ^ 52)) \<le> round_half_even (x / ?u)"
    by (intro round_half_even_mono) simp
  then have "2 ^ 52 \<le> round_half_even (x / ?u)"
    by (simp only: round_half_even_of_int)
  then have "(2 ^ 52 :: real) \<le> of_int (round_half_even (x / ?u))"
    by (metis of_int_le_iff of_int_numeral of_int_power)
  with u have "2 ^ 52 * ?u \<le> of_int (round_half_even (x / ?u)) * ?u" by simp
  then show ?thesis unfolding p fl_pos_def[OF assms] .
qed


lemma fl_pos: "0 < x \<Longrightarrow> 0 < fl x"
  using fl_lower[of x] pow2_pos[of "ilog2 x"] by simp


lemma fl_values: "fl 1 = 1" "fl 100 = 100" "fl (1 / 2) = 1 / 2" "1 / 200 \<le> fl (1 / 200)"
  by code_simp+




lemma percentage_of_all: "0 < n \<Longrightarrow> percentage_of n n = 100"
  by (simp add: percentage_of_def fl_values Math_round_def)

subsection \<open>Entries of the inferred schema\<close>

lemma kinds_seen_iff: "t \<in> kinds_seen docs p \<longleftrightarrow> (\<exists>d \<in> set docs. recorded d p = Some t)"
  by (force simp: kinds_seen_def List.map_filter_def)

lemma inferSchema_defined:
  assumes "docs \<noteq> []" and "p \<noteq> ''__proto__''" and "0 < presence docs p"
  shows "\<exists>fs. inferSchema docs p = Some fs"
proof (cases "map_of (collect_stats docs) p")
  case None
  with collect_stats_entry[of docs p] assms(3) show ?thesis by simp
next
  case (Some tc)
  with assms show ?thesis by (simp add: inferSchema_at)
qed

lemma filter_disjoint_length:
  "(\<And>x. \<not> (P x \<and> Q x)) \<Longrightarrow>
   length (filter (\<lambda>x. P x \<or> Q x) xs) = length (filter P xs) + length (filter Q xs)"
  by (induction xs) auto

lemma filter_full_length: "length (filter R xs) = length xs \<Longrightarrow> \<forall>x \<in> set xs. R x"
proof (induction xs)
  case Nil
  then show ?case by simp
next
  case (Cons x xs)
  have le: "length (filter R xs) \<le> length xs" by (rule length_filter_le)
  show ?case
  proof (cases "R x")
    case True
    with Cons.prems have "length (filter R xs) = length xs" by simp
    then have "\<forall>x \<in> set xs. R x" by (rule Cons.IH)
    with True show ?thesis by simp
  next
    case False
    with Cons.prems have "length (filter R xs) = Suc (length xs)" by simp
    with le show ?thesis by simp
  qed
qed

lemma filter_nonempty_ex: "0 < length (filter R xs) \<Longrightarrow> \<exists>x \<in> set xs. R x"
  by (induction xs) (auto split: if_splits)

lemma two_kinds_sorted:
  assumes "sorted xs" and "distinct xs" and "set xs = {''Int'', ''String''}"
  shows "xs = [''Int'', ''String'']"
proof -
  have "sorted [''Int'', ''String'']" "distinct [''Int'', ''String'']"
    "set xs = set [''Int'', ''String'']"
    using assms(3) by auto
  with assms(1,2) show ?thesis by (intro sorted_distinct_set_unique)
qed

text \<open>
  Off the empty key the sample of four behaves as expected: when the documents have plain
  keys, three of them hold a whole number in the field \<open>a\<close> and one a string, the entry of
  \<open>a\<close> has the kinds \<open>Int\<close> and \<open>String\<close> and the percentage 100.
\<close>

lemma inferSchema_two_kinds:
  assumes "length docs = 4"
    and "length (filter (\<lambda>d. recorded d ''a'' = Some ''Int'') docs) = 3"
    and "length (filter (\<lambda>d. recorded d ''a'' = Some ''String'') docs) = 1"
  shows "inferSchema docs ''a'' = Some \<lparr> types = [''Int'', ''String''], percentage = 100 \<rparr>"
proof -
  let ?I = "\<lambda>d. recorded d ''a'' = Some ''Int''"
  let ?S = "\<lambda>d. recorded d ''a'' = Some ''String''"
  have "length (filter (\<lambda>d. ?I d \<or> ?S d) docs) = length (filter ?I docs) + length (filter ?S docs)"
    by (rule filter_disjoint_length) auto
  with assms have "length (filter (\<lambda>d. ?I d \<or> ?S d) docs) = length docs" by simp
  then have all: "\<forall>d \<in> set docs. ?I d \<or> ?S d" by (rule filter_full_length)
  from assms have "\<exists>d \<in> set docs. ?I d" by (intro filter_nonempty_ex) simp
  then obtain d1 where d1: "d1 \<in> set docs" "recorded d1 ''a'' = Some ''Int''"
    by auto
  from assms have "\<exists>d \<in> set docs. ?S d" by (intro filter_nonempty_ex) simp
  then obtain d2 where d2: "d2 \<in> set docs" "recorded d2 ''a'' = Some ''String''"
    by auto
  have kinds: "kinds_seen docs ''a'' = {''Int'', ''String''}"
  proof (rule set_eqI)
    fix t
    show "t \<in> kinds_seen docs ''a'' \<longleftrightarrow> t \<in> {''Int'', ''String''}"
    proof
      assume "t \<in> kinds_seen docs ''a''"
      then obtain d where d: "d \<in> set docs" "recorded d ''a'' = Some t"
        unfolding kinds_seen_iff by blast
      from all d(1) have "?I d \<or> ?S d" by (rule bspec)
      with d(2) have "t = ''Int'' \<or> t = ''String''" by (elim disjE) simp_all
      then show "t \<in> {''Int'', ''String''}" by (elim disjE) simp_all
    next
      assume "t \<in> {''Int'', ''String''}"
      then have "t = ''Int'' \<or> t = ''String''" by simp
      with d1 d2 show "t \<in> kinds_seen docs ''a''" unfolding kinds_seen_iff by (elim disjE) blast+
    qed
  qed
  from all have "filter (\<lambda>d. recorded d ''a'' \<noteq> None) docs = docs"
    by (auto simp: filter_id_conv)
  then have pres: "presence docs ''a'' = 4" using assms by (simp add: presence_def)
  from assms have ne: "docs \<noteq> []" by auto
  from inferSchema_defined[OF ne _, of "''a''"] pres
  obtain fs' where fs': "inferSchema docs ''a'' = Some fs'" by auto
  from inferSchema_entry(4,5,6)[OF fs'] kinds
  have "types fs' = [''Int'', ''String'']"
    by (intro two_kinds_sorted) simp_all
  moreover from inferSchema_entry(3)[OF fs'] pres assms
  have "percentage fs' = 100"
    by (simp add: percentage_of_all)
  ultimately
  have "fs' = \<lparr> types = [''Int'', ''String''], percentage = 100 \<rparr>" by (cases fs') simp
  with fs' show ?thesis by simp
qed

lemma getBsonType_Int: "getBsonType v = ''Int'' \<longleftrightarrow> (\<exists>n::int. v = VNumber (Fin (of_int n)))"
proof (cases v)
  case (VNumber x)
  show ?thesis
  proof (cases x)
    case (Fin r)
    have "(r = of_int \<lfloor>r\<rfloor>) = (\<exists>n::int. r = of_int n)"
      by (metis of_int_floor_cancel)
    with VNumber Fin show ?thesis by simp
  qed (simp_all add: VNumber)
qed simp_all

lemma getBsonType_String: "getBsonType v = ''String'' \<longleftrightarrow> (\<exists>s. v = VString s)"
proof (cases v)
  case (VNumber x)
  then show ?thesis by simp
qed simp_all

lemma inferSchema_two_kinds_plain:
  assumes "length docs = 4" and "list_all plain_keys docs"
    and "length (filter (\<lambda>d. \<exists>n::int. map_of d ''a'' = Some (VNumber (Fin (of_int n)))) docs) = 3"
    and "length (filter (\<lambda>d. \<exists>s. map_of d ''a'' = Some (VString s)) docs) = 1"
  shows "inferSchema docs ''a'' = Some \<lparr> types = [''Int'', ''String''], percentage = 100 \<rparr>"
proof -
  have rec: "recorded d ''a'' = map_option getBsonType (map_of d ''a'')" if "d \<in> set docs" for d
    using assms(2) that recorded_top_level[of d "''a''"]
    by (auto simp: list_all_iff field_kind_def)
  have "filter (\<lambda>d. recorded d ''a'' = Some ''Int'') docs
          = filter (\<lambda>d. \<exists>n::int. map_of d ''a'' = Some (VNumber (Fin (of_int n)))) docs"
    by (rule filter_cong) (auto simp: rec getBsonType_Int)
  moreover have "filter (\<lambda>d. recorded d ''a'' = Some ''String'') docs
          = filter (\<lambda>d. \<exists>s. map_of d ''a'' = Some (VString s)) docs"
    by (rule filter_cong) (auto simp: rec getBsonType_String)
  ultimately show ?thesis
    using assms by (intro inferSchema_two_kinds) simp_all
qed

text \<open>
  C6. The sample of four documents \<open>{a: 1, "": {a: true}}\<close>, \<open>{a: 2}\<close>, \<open>{a: 3}\<close>,
  \<open>{a: "s"}\<close> has a whole number in the field \<open>a\<close> of three documents and a string in
  one. Its inferred entry for the path \<open>a\<close> has the kinds \<open>Boolean\<close>, \<open>Int\<close> and
  \<open>String\<close>: below the empty key the walk builds the path of the nested \<open>a\<close> without a
  prefix, and the first document records \<open>Boolean\<close> in place of \<open>Int\<close>. The percentage
  is 100.
\<close>

theorem inferSchema_empty_key:
  "map (\<lambda>d. map_of d ''a'') empty_key_sample
     = [Some (VNumber (Fin 1)), Some (VNumber (Fin 2)), Some (VNumber (Fin 3)),
        Some (VString ''s'')]
   \<and> map (\<lambda>d. field_kind d ''a'') empty_key_sample
     = [Some ''Int'', Some ''Int'', Some ''Int'', Some ''String'']
   \<and> visits (hd empty_key_sample) []
     = [(''a'', ''Int''), ('''', ''Object''), (''a'', ''Boolean'')]
   \<and> inferSchema empty_key_sample ''a''
     = Some \<lparr> types = [''Boolean'', ''Int'', ''String''], percentage = 100 \<rparr>"
  by code_simp

subsection \<open>Kinds seen and kinds recorded\<close>








text \<open>
  C8. The walk of \<open>extractFields\<close> does not enter arrays, identifiers, dates and
  patterns, but it enters a binary payload: \<open>getBsonType\<close> calls a \<open>Buffer\<close> a
  \<open>Binary\<close>, and the walk still lists its bytes as the paths \<open>data.0\<close>, \<open>data.1\<close>
  below the field.
\<close>

theorem extractFields_enters_binary:
  "\<not> is_nested_object (VArray items)
   \<and> \<not> is_nested_object (VObjectId oid)
   \<and> \<not> is_nested_object (VDate ms)
   \<and> \<not> is_nested_object (VRegExp src)
   \<and> is_nested_object (VView bytes)
   \<and> getBsonType (VView [7, 255]) = ''Binary''
   \<and> extractFields [(''data'', VView [7, 255])] []
       = [(''data'', ''Binary''), (''data.0'', ''Int''), (''data.1'', ''Int'')]
   \<and> extractFields [(''tags'', VArray [VObject [(''k'', VNull)]]), (''at'', VDate 0)] []
       = [(''tags'', ''Array''), (''at'', ''Date'')]"
  by simp

end
